theory Spec2Isabelle
  imports Complex_Main "HOL-Library.Word"
begin

section \<open>JavaScript strings and numbers\<close>

text \<open>
  A JavaScript string is modelled as a \<open>string\<close>: a list of code units below 256
  (the Latin-1 range). The numeric fields of a photo record are integers (pixels, bytes,
  epoch milliseconds) or absent; \<open>None\<close> stands for \<open>undefined\<close>, and for \<open>NaN\<close> once
  arithmetic has been applied to it. Arithmetic on present fields is exact.
\<close>

definition is_space :: "char \<Rightarrow> bool" where
  \<comment> \<open>the class \<open>\s\<close> of a regular expression, below code unit 256\<close>
  "is_space c = (of_char c \<in> {9, 10, 11, 12, 13, 32, 160 :: nat})"

definition is_digit :: "char \<Rightarrow> bool" where
  \<comment> \<open>the classes \<open>[0-9]\<close> and \<open>\d\<close>\<close>
  "is_digit c = (48 \<le> (of_char c :: nat) \<and> (of_char c :: nat) \<le> 57)"

definition toLowerChar :: "char \<Rightarrow> char" where
  "toLowerChar c =
     (let n = (of_char c :: nat) in
      if (65 \<le> n \<and> n \<le> 90) \<or> (192 \<le> n \<and> n \<le> 222 \<and> n \<noteq> 215)
      then char_of (n + 32) else c)"

definition toLowerCase :: "string \<Rightarrow> string" where
  "toLowerCase s = map toLowerChar s"

definition digitChar :: "nat \<Rightarrow> char" where
  "digitChar d = ''0123456789abcdefghijklmnopqrstuvwxyz'' ! d"

function toRadix :: "int \<Rightarrow> int \<Rightarrow> string" where
  \<comment> \<open>the digits of a non-negative integer \<open>n\<close> in base \<open>b\<close>\<close>
  "toRadix b n =
     (if n < b \<or> b < 2 then [digitChar (nat n)]
      else toRadix b (n div b) @ [digitChar (nat (n mod b))])"
  by pat_completeness auto
termination
proof (relation "measure (\<lambda>(b, n). nat n)")
  show "wf (measure (\<lambda>(b :: int, n :: int). nat n))" by simp
next
  fix b n :: int
  assume "\<not> (n < b \<or> b < 2)"
  then have "2 \<le> b" and "b \<le> n" by simp_all
  then have "n div b < n" by (simp add: int_div_less_self)
  moreover have "0 < n" using \<open>2 \<le> b\<close> \<open>b \<le> n\<close> by simp
  ultimately show "((b, n div b), (b, n)) \<in> measure (\<lambda>(b, n). nat n)" by simp
qed

definition numToString :: "int \<Rightarrow> string" where
  \<comment> \<open>\<open>String(n)\<close> of an integer \<open>n\<close> (decimal, below \<open>10^21\<close> in magnitude)\<close>
  "numToString n = (if n < 0 then CHR ''-'' # toRadix 10 (- n) else toRadix 10 n)"

definition joinField :: "int option \<Rightarrow> string" where
  \<comment> \<open>\<open>Array.prototype.join\<close> renders \<open>undefined\<close> as the empty string\<close>
  "joinField v = (case v of None \<Rightarrow> [] | Some n \<Rightarrow> numToString n)"

definition joinNumber :: "int option \<Rightarrow> string" where
  \<comment> \<open>a computed number: \<open>NaN\<close> is rendered as ``NaN''\<close>
  "joinNumber v = (case v of None \<Rightarrow> ''NaN'' | Some n \<Rightarrow> numToString n)"

definition mathRound :: "rat \<Rightarrow> int" where
  \<comment> \<open>\<open>Math.round\<close>: the nearest integer, halves towards plus infinity\<close>
  "mathRound x = \<lfloor>x + 1 / 2\<rfloor>"

definition mathFloor :: "rat \<Rightarrow> int" where
  "mathFloor x = \<lfloor>x\<rfloor>"

section \<open>imageHashing: file names and signatures\<close>

fun split_on :: "char \<Rightarrow> string \<Rightarrow> string list" where
  "split_on d [] = [[]]"
| "split_on d (c # cs) =
     (if c = d then [] # split_on d cs
      else (case split_on d cs of [] \<Rightarrow> [[c]] | p # ps \<Rightarrow> (c # p) # ps))"

definition extractFileName :: "string \<Rightarrow> string" where
  "extractFileName u = (let parts = split_on CHR ''/'' u in last parts)"

text \<open>The match of \<open>\s*\([0-9]+\)\s*\<close> at the start of a string: what follows the match.\<close>

definition match_counter :: "string \<Rightarrow> string option" where
  "match_counter r =
     (case dropWhile is_space r of
        [] \<Rightarrow> None
      | c # r2 \<Rightarrow>
          if c = CHR ''('' \<and> takeWhile is_digit r2 \<noteq> [] then
            (case dropWhile is_digit r2 of
               [] \<Rightarrow> None
             | c' # r4 \<Rightarrow> if c' = CHR '')'' then Some (dropWhile is_space r4) else None)
          else None)"

function removeCounters :: "string \<Rightarrow> string" where
  \<comment> \<open>\<open>.replace(/\s*\([0-9]+\)\s*/g, '')\<close>\<close>
  "removeCounters [] = []"
| "removeCounters (c # cs) =
     (case match_counter (c # cs) of
        Some rest \<Rightarrow> removeCounters rest
      | None \<Rightarrow> c # removeCounters cs)"
  by pat_completeness auto
termination
proof (relation "measure length")
  show "wf (measure (length :: string \<Rightarrow> nat))" by simp
next
  fix c :: char and cs rest :: string
  assume m: "match_counter (c # cs) = Some rest"
  have dw: "length (dropWhile P xs) \<le> length xs" for P and xs :: string
    by (induction xs) auto
  from m obtain d r2 d' r4 where
    a: "dropWhile is_space (c # cs) = d # r2" and b: "dropWhile is_digit r2 = d' # r4"
    and r: "rest = dropWhile is_space r4"
    unfolding match_counter_def by (auto split: list.splits if_splits)
  have "length rest \<le> length r4" using r dw by simp
  also have "\<dots> < length (dropWhile is_digit r2)" using b by simp
  also have "\<dots> \<le> length r2" by (rule dw)
  also have "\<dots> < length (dropWhile is_space (c # cs))" using a by simp
  also have "\<dots> \<le> length (c # cs)" by (rule dw)
  finally show "(rest, c # cs) \<in> measure length" by simp
next
  fix c :: char and cs :: string
  show "(cs, c # cs) \<in> measure length" by simp
qed

fun removeCopy :: "string \<Rightarrow> string" where
  \<comment> \<open>\<open>.replace(/-copy/i, '')\<close>: the first occurrence only\<close>
  "removeCopy [] = []"
| "removeCopy (c # cs) =
     (if toLowerCase (take 5 (c # cs)) = ''-copy'' then drop 5 (c # cs)
      else c # removeCopy cs)"

fun removeTrailingNumber :: "string \<Rightarrow> string" where
  \<comment> \<open>\<open>.replace(/-\d+$/i, '')\<close>\<close>
  "removeTrailingNumber [] = []"
| "removeTrailingNumber (c # cs) =
     (if c = CHR ''-'' \<and> cs \<noteq> [] \<and> list_all is_digit cs then []
      else c # removeTrailingNumber cs)"

definition filenameBase :: "string \<Rightarrow> string" where
  \<comment> \<open>the chain of replacements applied to \<open>extractFileName(uri)\<close> in the source\<close>
  "filenameBase u =
     toLowerCase (removeTrailingNumber (removeCopy (removeCounters (extractFileName u))))"


fun joinStrings :: "string \<Rightarrow> string list \<Rightarrow> string" where
  \<comment> \<open>\<open>Array.prototype.join\<close> on strings\<close>
  "joinStrings sep [] = []"
| "joinStrings sep [x] = x"
| "joinStrings sep (x # y # ys) = x @ sep @ joinStrings sep (y # ys)"

record photo =
  id_of :: string
  uri :: string
  width :: "int option"
  height :: "int option"
  size_of :: "int option"
  creationTime :: "int option"

definition hashStep :: "int \<Rightarrow> char \<Rightarrow> int" where
  \<comment> \<open>\<open>hash = ((hash << 5) - hash) + char; hash = hash & hash\<close>\<close>
  "hashStep hash c =
     (let char = (of_char c :: int);
          h = sint (push_bit 5 (word_of_int hash :: 32 word)) - hash + char
      in sint (and (word_of_int h) (word_of_int h) :: 32 word))"

definition simpleHash :: "string \<Rightarrow> string" where
  "simpleHash str = toRadix 36 \<bar>foldl hashStep 0 str\<bar>"

definition signatureString :: "'a photo_scheme \<Rightarrow> string" where
  "signatureString photo =
     (let filename = extractFileName (uri photo);
          filenameBase = toLowerCase (removeTrailingNumber (removeCopy (removeCounters filename)));
          timeRounded = map_option (\<lambda>t. mathFloor (of_int t / 60000)) (creationTime photo)
      in joinStrings ''|''
           [joinField (width photo),
            joinField (height photo),
            joinNumber (map_option (\<lambda>s. mathRound (of_int s / 1000)) (size_of photo)),
            joinNumber timeRounded,
            filenameBase])"

definition generateImageSignature :: "'a photo_scheme \<Rightarrow> string" where
  "generateImageSignature photo = simpleHash (signatureString photo)"


subsection \<open>The signature as the specification words it\<close>






section \<open>photoDetection: the categorisation pipeline\<close>

datatype category = DUPLICATE | SIMILAR | SCREENSHOT | LOW_QUALITY | BURST | OLD_UNUSED

definition TIME_THRESHOLD :: int where
  "TIME_THRESHOLD = 60000"

definition batchSize :: nat where
  "batchSize = 50"

definition checkRange :: nat where
  "checkRange = 25"

record sphoto = photo +
  signature :: string

record categorized = sphoto +
  similarCount :: "nat option"
  categories :: "category list"
  isDuplicate :: bool
  duplicateIds :: "string list"
  duplicateCount :: nat

definition withSignature :: "photo \<Rightarrow> sphoto" where
  \<comment> \<open>\<open>{...photo, signature}\<close>; \<open>generateImageSignature\<close> cannot throw on a record whose
      \<open>uri\<close> is a string, so the \<open>catch\<close> branch of the source is never taken\<close>
  "withSignature photo =
     \<lparr>id_of = id_of photo, uri = uri photo, width = width photo, height = height photo,
      size_of = size_of photo, creationTime = creationTime photo,
      signature = generateImageSignature photo\<rparr>"

text \<open>
  Phase A. The state is the array \<open>photosWithSignatures\<close> and the values passed to
  \<open>onProgress\<close> so far; \<open>onProgress\<close> tells whether a callback was supplied.
\<close>

function signatureBatches ::
  "photo list \<Rightarrow> bool \<Rightarrow> nat \<Rightarrow> sphoto list \<times> int list \<Rightarrow> sphoto list \<times> int list" where
  "signatureBatches photos onProgress batchStart (photosWithSignatures, reported) =
     (if batchStart < length photos then
        let total = length photos;
            batchEnd = min (batchStart + batchSize) (length photos);
            pws = photosWithSignatures @ map (\<lambda>i. withSignature (photos ! i)) [batchStart..<batchEnd];
            progress = mathRound (of_nat batchEnd / of_nat total * 100);
            rep = (if onProgress then reported @ [progress] else reported)
        in signatureBatches photos onProgress (batchStart + batchSize) (pws, rep)
      else (photosWithSignatures, reported))"
  by pat_completeness auto
termination
  by (relation "measure (\<lambda>(photos, onProgress, batchStart, st). length photos - batchStart)")
     (auto simp: batchSize_def)

text \<open>Phase B: the \<open>Map\<close> from a signature to its entries \<open>{photo, index}\<close>, in index order.\<close>

definition addToSignatureMap ::
  "sphoto list \<Rightarrow> nat \<Rightarrow> (string \<rightharpoonup> (sphoto \<times> nat) list) \<Rightarrow> (string \<rightharpoonup> (sphoto \<times> nat) list)" where
  \<comment> \<open>the body of the loop, at \<open>i\<close>: \<open>has\<close>, \<open>set\<close>, \<open>get\<close> and \<open>push\<close>\<close>
  "addToSignatureMap pws i signatureMap =
     (let photo = pws ! i in
      (case signatureMap (signature photo) of
         None \<Rightarrow> signatureMap(signature photo \<mapsto> [(photo, i)])
       | Some entries \<Rightarrow> signatureMap(signature photo \<mapsto> entries @ [(photo, i)])))"

definition groupBySignature :: "sphoto list \<Rightarrow> (string \<rightharpoonup> (sphoto \<times> nat) list)" where
  "groupBySignature pws = fold (addToSignatureMap pws) [0..<length pws] Map.empty"

text \<open>In the three loops below \<open>idSet\<close> is the \<open>Set\<close> named \<open>duplicateIds\<close> in the source.\<close>

definition addSignatureDuplicate ::
  "nat \<Rightarrow> sphoto \<times> nat \<Rightarrow> sphoto list \<times> string set \<Rightarrow> sphoto list \<times> string set" where
  \<comment> \<open>the body of the loop over \<open>sameSignaturePhotos\<close>\<close>
  "addSignatureDuplicate index entry st =
     (case entry of (otherPhoto, otherIndex) \<Rightarrow>
      (case st of (duplicates, idSet) \<Rightarrow>
        if otherIndex = index then (duplicates, idSet)
        else (duplicates @ [otherPhoto], insert (id_of otherPhoto) idSet)))"

definition signatureDuplicates ::
  "(sphoto \<times> nat) list \<Rightarrow> nat \<Rightarrow> sphoto list \<times> string set" where
  "signatureDuplicates sameSignaturePhotos index =
     fold (addSignatureDuplicate index) sameSignaturePhotos ([], {})"

function filenameDuplicates ::
  "sphoto list \<Rightarrow> nat \<Rightarrow> string \<Rightarrow> nat \<Rightarrow> sphoto list \<times> string set \<Rightarrow> sphoto list \<times> string set" where
  "filenameDuplicates pws index fb i (duplicates, idSet) =
     (if i < length pws \<and> length duplicates < 20 then
        if i = index \<or> id_of (pws ! i) \<in> idSet
        then filenameDuplicates pws index fb (i + 1) (duplicates, idSet)
        else
          let otherPhoto = pws ! i;
              otherFilenameBase = filenameBase (uri otherPhoto)
          in if fb = otherFilenameBase \<and> length fb > 0
             then filenameDuplicates pws index fb (i + 1)
                    (duplicates @ [otherPhoto], insert (id_of otherPhoto) idSet)
             else filenameDuplicates pws index fb (i + 1) (duplicates, idSet)
      else (duplicates, idSet))"
  by pat_completeness auto
termination
  by (relation "measure (\<lambda>(pws, index, fb, i, st). length pws - i)") auto

definition similarSize :: "'a photo_scheme \<Rightarrow> 'b photo_scheme \<Rightarrow> bool" where
  \<comment> \<open>\<open>Math.abs(photo.size - otherPhoto.size) < Math.max(photo.size * 0.1, 10000)\<close>\<close>
  "similarSize photo otherPhoto =
     (case (size_of photo, size_of otherPhoto) of
        (Some s, Some s') \<Rightarrow> (of_int \<bar>s - s'\<bar> :: rat) < max (of_int s * (1 / 10)) 10000
      | _ \<Rightarrow> False)"

definition timeDiffBelow :: "'a photo_scheme \<Rightarrow> 'b photo_scheme \<Rightarrow> int \<Rightarrow> bool" where
  \<comment> \<open>\<open>Math.abs(photo.creationTime - otherPhoto.creationTime) < bound\<close>\<close>
  "timeDiffBelow photo otherPhoto bound =
     (case (creationTime photo, creationTime otherPhoto) of
        (Some t, Some t') \<Rightarrow> \<bar>t - t'\<bar> < bound
      | _ \<Rightarrow> False)"

definition scanStep :: "sphoto list \<Rightarrow> nat \<Rightarrow> string set \<Rightarrow> nat \<Rightarrow> sphoto list \<Rightarrow> sphoto list" where
  \<comment> \<open>the body of the loop over the neighbours, at \<open>i\<close>\<close>
  "scanStep pws index idSet i similar =
     (let photo = pws ! index in
      if i = index \<or> id_of (pws ! i) \<in> idSet then similar
      else
        let otherPhoto = pws ! i in
        if width photo \<noteq> width otherPhoto \<or> height photo \<noteq> height otherPhoto
        then similar
        else if similarSize photo otherPhoto
                \<and> timeDiffBelow photo otherPhoto TIME_THRESHOLD
                \<and> length similar < 5
             then similar @ [otherPhoto] else similar)"

definition similarScan :: "sphoto list \<Rightarrow> nat \<Rightarrow> string set \<Rightarrow> sphoto list" where
  \<comment> \<open>\<open>start = Math.max(0, index - checkRange)\<close>: subtraction on \<open>nat\<close> stops at 0\<close>
  "similarScan pws index idSet =
     (let start = index - checkRange;
          end = min (length pws) (index + checkRange)
      in fold (scanStep pws index idSet) [start..<end] [])"

definition commonScreenshotSizes :: "(int \<times> int) list" where
  "commonScreenshotSizes =
     [(1080, 1920), (1242, 2208), (750, 1334), (1440, 2560),
      (1080, 2340), (1170, 2532), (1179, 2556), (1284, 2778)]"

definition isScreenshot :: "'a photo_scheme \<Rightarrow> bool" where
  "isScreenshot photo =
     (case (width photo, height photo) of
        (Some w, Some h) \<Rightarrow>
          (let isSquare = \<bar>w - h\<bar> < 10
           in isSquare \<or> list_ex (\<lambda>(sw, sh). \<bar>w - sw\<bar> < 50 \<and> \<bar>h - sh\<bar> < 50) commonScreenshotSizes)
      | _ \<Rightarrow> False)"

definition isLowQuality :: "'a photo_scheme \<Rightarrow> bool" where
  \<comment> \<open>an absent field makes every comparison false (\<open>NaN\<close>)\<close>
  "isLowQuality photo =
     (case (width photo, height photo) of
        (Some w, Some h) \<Rightarrow>
          (let pixels = w * h in
           if pixels > 0 then
             (case size_of photo of
                None \<Rightarrow> False
              | Some s \<Rightarrow>
                  (let bytesPerPixel = (of_int s / of_int pixels :: rat)
                   in s < 50000 \<or> (pixels > 1000000 \<and> bytesPerPixel < 1 / 10)))
           else False)
      | _ \<Rightarrow> False)"

definition isOldUnused :: "int \<Rightarrow> 'a photo_scheme \<Rightarrow> bool" where
  "isOldUnused now photo =
     (case creationTime photo of
        None \<Rightarrow> False
      | Some t \<Rightarrow>
          (let daysSinceCreation = (of_int (now - t) / (1000 * 60 * 60 * 24) :: rat)
           in daysSinceCreation > 365))"

definition uniq :: "'a list \<Rightarrow> 'a list" where
  \<comment> \<open>\<open>[...new Set(xs)]\<close>: the first occurrence of each element, in order\<close>
  "uniq xs = rev (remdups (rev xs))"

text \<open>
  One iteration of Phase C, in four parts: the two duplicate passes, the scan for similar
  photos, the labels, and the record pushed to \<open>categorized\<close>.
\<close>

definition findDuplicates ::
  "sphoto list \<Rightarrow> (string \<rightharpoonup> (sphoto \<times> nat) list) \<Rightarrow> nat \<Rightarrow> sphoto list \<times> string set" where
  "findDuplicates pws signatureMap index =
     (let photo = pws ! index;
          sameSignaturePhotos = (case signatureMap (signature photo) of None \<Rightarrow> [] | Some es \<Rightarrow> es);
          st = signatureDuplicates sameSignaturePhotos index
      in if length (fst st) < 10
         then filenameDuplicates pws index (filenameBase (uri photo)) 0 st
         else st)"

definition findSimilar :: "sphoto list \<Rightarrow> nat \<Rightarrow> sphoto list \<times> string set \<Rightarrow> sphoto list" where
  "findSimilar pws index st =
     (case st of (duplicates, idSet) \<Rightarrow>
        if length duplicates = 0 then similarScan pws index idSet else [])"

definition categoriesOf :: "sphoto \<Rightarrow> int \<Rightarrow> sphoto list \<Rightarrow> sphoto list \<Rightarrow> category list" where
  \<comment> \<open>the labels pushed to \<open>categories\<close>, in the order of the source\<close>
  "categoriesOf photo now duplicates similar =
       (if length duplicates > 0 then [DUPLICATE] else [])
     @ (if length similar > 0 then (if length similar > 2 then [BURST] else [SIMILAR]) else [])
     @ (if isScreenshot photo then [SCREENSHOT] else [])
     @ (if isLowQuality photo then [LOW_QUALITY] else [])
     @ (if isOldUnused now photo then [OLD_UNUSED] else [])"

text \<open>
  The assignments to \<open>photo.duplicateCount\<close>, \<open>photo.duplicateIds\<close> and
  \<open>photo.similarCount\<close> act on the copy held in \<open>photosWithSignatures\<close>; the first two are
  overwritten in the record pushed to \<open>categorized\<close>, the third is carried into it by the
  spread.
\<close>

definition categorizePhoto ::
  "sphoto list \<Rightarrow> (string \<rightharpoonup> (sphoto \<times> nat) list) \<Rightarrow> int \<Rightarrow> nat \<Rightarrow> categorized" where
  "categorizePhoto pws signatureMap now index =
     (let photo = pws ! index;
          st = findDuplicates pws signatureMap index;
          duplicates = fst st;
          similar = findSimilar pws index st
      in \<lparr>id_of = id_of photo, uri = uri photo, width = width photo, height = height photo,
          size_of = size_of photo, creationTime = creationTime photo,
          signature = signature photo,
          similarCount = (if length similar > 0 then Some (length similar) else None),
          categories = uniq (categoriesOf photo now duplicates similar),
          isDuplicate = (length duplicates > 0),
          duplicateIds = map id_of duplicates,
          duplicateCount = length duplicates\<rparr>)"

text \<open>Phase C; \<open>clock index\<close> is the value of \<open>Date.now()\<close> read in iteration \<open>index\<close>.\<close>

definition categorizeStep ::
  "sphoto list \<Rightarrow> (string \<rightharpoonup> (sphoto \<times> nat) list) \<Rightarrow> bool \<Rightarrow> (nat \<Rightarrow> int)
     \<Rightarrow> nat \<Rightarrow> categorized list \<times> int list \<Rightarrow> categorized list \<times> int list" where
  \<comment> \<open>the body of the loop, at \<open>index\<close>\<close>
  "categorizeStep pws signatureMap onProgress clock index st =
     (case st of (categorized, reported) \<Rightarrow>
        let c = categorizePhoto pws signatureMap (clock index) index;
            categorizationProgress =
              (50 + (of_nat (index + 1) / of_nat (length pws)) * 45 :: rat);
            rep = (if onProgress \<and> (index mod 25 = 0 \<or> index = length pws - 1)
                   then reported @ [mathRound categorizationProgress] else reported)
        in (categorized @ [c], rep))"

definition categorizeAll ::
  "sphoto list \<Rightarrow> (string \<rightharpoonup> (sphoto \<times> nat) list) \<Rightarrow> bool \<Rightarrow> (nat \<Rightarrow> int)
     \<Rightarrow> categorized list \<times> int list \<Rightarrow> categorized list \<times> int list" where
  "categorizeAll pws signatureMap onProgress clock st =
     fold (categorizeStep pws signatureMap onProgress clock) [0..<length pws] st"

text \<open>
  The whole run: the array returned and the values passed to the callback, in order.
  \<open>None\<close> is a \<open>null\<close> (or \<open>undefined\<close>) argument.
\<close>

definition detectDuplicatesAndSimilar ::
  "photo list option \<Rightarrow> bool \<Rightarrow> (nat \<Rightarrow> int) \<Rightarrow> categorized list \<times> int list" where
  "detectDuplicatesAndSimilar photos onProgress clock =
     (case photos of
        None \<Rightarrow> ([], [])
      | Some ps \<Rightarrow>
          if length ps = 0 then ([], [])
          else
            let (photosWithSignatures, reported) = signatureBatches ps onProgress 0 ([], []);
                signatureMap = groupBySignature photosWithSignatures;
                reported = (if onProgress then reported @ [50] else reported);
                (categorized, reported) =
                  categorizeAll photosWithSignatures signatureMap onProgress clock ([], reported);
                reported = (if onProgress then reported @ [100] else reported)
            in (categorized, reported))"

definition addMember ::
  "categorized list \<Rightarrow> string \<Rightarrow> categorized list \<times> string set
     \<Rightarrow> categorized list \<times> string set" where
  \<comment> \<open>the callback of \<open>photo.duplicateIds.forEach\<close>; \<open>grp\<close> is the array \<open>group\<close>\<close>
  "addMember categorizedPhotos dupId st =
     (case st of (grp, processed) \<Rightarrow>
        (case find (\<lambda>p. id_of p = dupId) categorizedPhotos of
           None \<Rightarrow> (grp, processed)
         | Some dupPhoto \<Rightarrow>
             if dupId \<notin> processed then (grp @ [dupPhoto], insert dupId processed)
             else (grp, processed)))"

definition addGroup ::
  "categorized list \<Rightarrow> categorized \<Rightarrow> categorized list list \<times> string set
     \<Rightarrow> categorized list list \<times> string set" where
  \<comment> \<open>the callback of \<open>duplicates.forEach\<close>; \<open>duplicateIds\<close> of a categorized record is
      always an array, so the test \<open>if (photo.duplicateIds)\<close> succeeds\<close>
  "addGroup categorizedPhotos photo st =
     (case st of (groups, processed) \<Rightarrow>
        if id_of photo \<in> processed then (groups, processed)
        else
          (case fold (addMember categorizedPhotos) (duplicateIds photo) ([photo], processed) of
             (grp, processed') \<Rightarrow>
               if length grp > 1
               then (groups @ [grp], insert (id_of photo) processed')
               else (groups, processed')))"

definition getDuplicateGroups :: "categorized list \<Rightarrow> categorized list list" where
  "getDuplicateGroups categorizedPhotos =
     (let duplicates = filter isDuplicate categorizedPhotos
      in fst (fold (addGroup categorizedPhotos) duplicates ([], {})))"

section \<open>The pipeline on a store of objects\<close>

text \<open>
  To state what a run does to the objects of its caller, the arrays and records are placed
  in a store: a list of objects, where an address is a position and a new object is
  appended. The input array is an object of the store that holds the addresses of the
  photo records. \<open>{...photo, signature}\<close> allocates a working object, an element of
  \<open>photosWithSignatures\<close>; the assignments \<open>photo.duplicateCount = \<dots>\<close>,
  \<open>photo.duplicateIds = \<dots>\<close> and \<open>photo.similarCount = \<dots>\<close> write to that working object
  in place; \<open>categorized.push({...photo, \<dots>})\<close> allocates the output record, and the array
  returned is allocated last. The values are computed by the functions above. Batches,
  progress reports and pauses have no effect on the store and are left out here.
\<close>

type_synonym addr = nat

record working = sphoto +
  w_duplicateCount :: "nat option"
  w_duplicateIds :: "string list option"
  w_similarCount :: "nat option"

datatype jsobject =
    PhotoObj photo
  | WorkingObj working
  | CategorizedObj categorized
  | ArrayObj "addr list"

type_synonym store = "jsobject list"

definition lookup :: "store \<Rightarrow> addr \<Rightarrow> jsobject option" where
  "lookup h a = (if a < length h then Some (h ! a) else None)"

definition alloc :: "store \<Rightarrow> jsobject \<Rightarrow> store \<times> addr" where
  "alloc h obj = (h @ [obj], length h)"

definition toWorking :: "photo \<Rightarrow> working" where
  \<comment> \<open>\<open>{...photo, signature}\<close>: the three later fields are not set yet\<close>
  "toWorking photo =
     \<lparr>id_of = id_of photo, uri = uri photo, width = width photo, height = height photo,
      size_of = size_of photo, creationTime = creationTime photo,
      signature = generateImageSignature photo,
      w_duplicateCount = None, w_duplicateIds = None, w_similarCount = None\<rparr>"

fun signPhotos :: "store \<Rightarrow> addr list \<Rightarrow> (store \<times> addr list) option" where
  \<comment> \<open>Phase A over the elements of the input array; \<open>None\<close>: an element is not a photo record\<close>
  "signPhotos h [] = Some (h, [])"
| "signPhotos h (a # as) =
     (case lookup h a of
        Some (PhotoObj photo) \<Rightarrow>
          (case alloc h (WorkingObj (toWorking photo)) of
             (h1, w) \<Rightarrow>
               (case signPhotos h1 as of
                  None \<Rightarrow> None
                | Some (h2, ws) \<Rightarrow> Some (h2, w # ws)))
      | _ \<Rightarrow> None)"

definition readWorking :: "store \<Rightarrow> addr list \<Rightarrow> working list option" where
  \<comment> \<open>the elements of \<open>photosWithSignatures\<close>, as they are in the store now\<close>
  "readWorking h as =
     those (map (\<lambda>a. case lookup h a of Some (WorkingObj w) \<Rightarrow> Some w | _ \<Rightarrow> None) as)"

definition categorizeOnStore ::
  "addr list \<Rightarrow> (string \<rightharpoonup> (sphoto \<times> nat) list) \<Rightarrow> (nat \<Rightarrow> int) \<Rightarrow> nat
     \<Rightarrow> (store \<times> addr list) option \<Rightarrow> (store \<times> addr list) option" where
  \<comment> \<open>one iteration of Phase C: the store and the addresses pushed to \<open>categorized\<close>\<close>
  "categorizeOnStore pwsAddrs signatureMap clock index st =
     (case st of
        None \<Rightarrow> None
      | Some (h, outs) \<Rightarrow>
          (case readWorking h pwsAddrs of
             None \<Rightarrow> None
           | Some ws \<Rightarrow>
               let pws = map sphoto.truncate ws;
                   photo = ws ! index;
                   dups = findDuplicates pws signatureMap index;
                   duplicates = fst dups;
                   similar = findSimilar pws index dups;
                   photo1 = (if length duplicates > 0
                             then photo\<lparr>w_duplicateCount := Some (length duplicates),
                                        w_duplicateIds := Some (map id_of duplicates)\<rparr>
                             else photo);
                   photo2 = (if length similar > 0
                             then photo1\<lparr>w_similarCount := Some (length similar)\<rparr>
                             else photo1);
                   h1 = h[pwsAddrs ! index := WorkingObj photo2];
                   record = \<lparr>id_of = id_of photo2, uri = uri photo2, width = width photo2,
                             height = height photo2, size_of = size_of photo2,
                             creationTime = creationTime photo2, signature = signature photo2,
                             similarCount = w_similarCount photo2,
                             categories = uniq (categoriesOf (sphoto.truncate photo2)
                                                  (clock index) duplicates similar),
                             isDuplicate = (length duplicates > 0),
                             duplicateIds = map id_of duplicates,
                             duplicateCount = length duplicates\<rparr>
               in (case alloc h1 (CategorizedObj record) of
                     (h2, out) \<Rightarrow> Some (h2, outs @ [out]))))"

definition detectOnStore ::
  "store \<Rightarrow> addr option \<Rightarrow> (nat \<Rightarrow> int) \<Rightarrow> (store \<times> addr) option" where
  \<comment> \<open>the store after the run and the address of the array returned; \<open>None\<close>: the argument
      is not an array of photo records\<close>
  "detectOnStore h photos clock =
     (case photos of
        None \<Rightarrow> Some (alloc h (ArrayObj []))
      | Some arr \<Rightarrow>
          (case lookup h arr of
             Some (ArrayObj elems) \<Rightarrow>
               if length elems = 0 then Some (alloc h (ArrayObj []))
               else
                 (case signPhotos h elems of
                    None \<Rightarrow> None
                  | Some (h1, pwsAddrs) \<Rightarrow>
                      (case readWorking h1 pwsAddrs of
                         None \<Rightarrow> None
                       | Some ws \<Rightarrow>
                           let signatureMap = groupBySignature (map sphoto.truncate ws) in
                           (case fold (categorizeOnStore pwsAddrs signatureMap clock)
                                   [0..<length pwsAddrs] (Some (h1, [])) of
                              None \<Rightarrow> None
                            | Some (h2, outs) \<Rightarrow> Some (alloc h2 (ArrayObj outs)))))
           | _ \<Rightarrow> None))"

text \<open>
  The invariant of Phase C on the store, before iteration \<open>k\<close>: the store of the caller
  \<open>h0\<close>, then the working objects, then the records pushed so far; the working objects
  still carry the metadata and signatures of the input, and those from \<open>k\<close> on are
  untouched.
\<close>

definition store_inv ::
  "store \<Rightarrow> photo list \<Rightarrow> (nat \<Rightarrow> int) \<Rightarrow> nat \<Rightarrow> store \<times> addr list \<Rightarrow> bool" where
  "store_inv h0 ps clock k st \<longleftrightarrow>
     (\<exists>ws. length ws = length ps
        \<and> fst st = h0 @ map WorkingObj ws
                    @ map (\<lambda>i. CategorizedObj
                              (categorizePhoto (map withSignature ps)
                                 (groupBySignature (map withSignature ps)) (clock i) i))
                          [0..<k]
        \<and> snd st = map (\<lambda>i. length h0 + length ps + i) [0..<k]
        \<and> map sphoto.truncate ws = map withSignature ps
        \<and> (\<forall>i. k \<le> i \<and> i < length ps \<longrightarrow> ws ! i = toWorking (ps ! i)))"

text \<open>
  The invariant of the loop of \<open>getDuplicateGroups\<close>: every id of a group built so far is
  in \<open>processed\<close>, and no two groups share an id.
\<close>

definition groups_inv :: "categorized list list \<times> string set \<Rightarrow> bool" where
  "groups_inv st \<longleftrightarrow>
     (\<forall>g\<in>set (fst st). id_of ` set g \<subseteq> snd st)
     \<and> (\<forall>i j. i < j \<and> j < length (fst st)
            \<longrightarrow> id_of ` set (fst st ! i) \<inter> id_of ` set (fst st ! j) = {})"

text \<open>
  The indices of the other photos that carry the signature of photo \<open>i\<close>: what the first
  duplicate pass collects.
\<close>

definition sigOthers :: "sphoto list \<Rightarrow> nat \<Rightarrow> nat list" where
  "sigOthers pws i =
     filter (\<lambda>k. k \<noteq> i) (filter (\<lambda>k. signature (pws ! k) = signature (pws ! i)) [0..<length pws])"

text \<open>The test that \<open>scanStep\<close> applies to the neighbour at \<open>i\<close>, apart from the cap.\<close>

definition qualifies :: "sphoto list \<Rightarrow> nat \<Rightarrow> string set \<Rightarrow> nat \<Rightarrow> bool" where
  "qualifies pws index idSet i \<longleftrightarrow>
     i \<noteq> index \<and> id_of (pws ! i) \<notin> idSet
     \<and> width (pws ! index) = width (pws ! i) \<and> height (pws ! index) = height (pws ! i)
     \<and> similarSize (pws ! index) (pws ! i)
     \<and> timeDiffBelow (pws ! index) (pws ! i) TIME_THRESHOLD"

section \<open>Example inputs\<close>

definition mkPhoto :: "string \<Rightarrow> string \<Rightarrow> int \<Rightarrow> int \<Rightarrow> int \<Rightarrow> int \<Rightarrow> photo" where
  "mkPhoto i u w h s t =
     \<lparr>id_of = i, uri = u, width = Some w, height = Some h, size_of = Some s,
      creationTime = Some t\<rparr>"

definition originalPhoto :: photo where
  "originalPhoto = mkPhoto ''a'' ''file:///photos/IMG_001.jpg'' 3000 2000 300000 1000"

definition renamedCopyPhoto :: photo where
  \<comment> \<open>the same picture exported again: 400 bytes larger, half a second later\<close>
  "renamedCopyPhoto = mkPhoto ''b'' ''file:///photos/IMG_001 (1).jpg'' 3000 2000 300400 1500"

definition mkCategorized :: "string \<Rightarrow> string list \<Rightarrow> categorized" where
  \<comment> \<open>a categorized record with the given id and duplicate ids\<close>
  "mkCategorized i ds =
     \<lparr>id_of = i, uri = ''file:///photos/'' @ i, width = Some 100, height = Some 100,
      size_of = Some 100000, creationTime = Some 0, signature = ''0'',
      similarCount = None, categories = (if ds = [] then [] else [DUPLICATE]),
      isDuplicate = (ds \<noteq> []), duplicateIds = ds, duplicateCount = length ds\<rparr>"

definition twoPairs :: "categorized list" where
  "twoPairs = [mkCategorized ''a'' [''b''], mkCategorized ''b'' [''a''],
               mkCategorized ''c'' [''d''], mkCategorized ''d'' [''c'']]"

definition crowd :: "photo list" where
  \<comment> \<open>eleven copies of one picture under one file name, and a twelfth file of that name
      with another size\<close>
  "crowd = map (\<lambda>i. mkPhoto i ''file:///photos/a.jpg'' 1 1 1 1)
             [''p0'', ''p1'', ''p2'', ''p3'', ''p4'', ''p5'', ''p6'', ''p7'', ''p8'', ''p9'', ''p10'']
           @ [mkPhoto ''p11'' ''file:///backup/a.jpg'' 1 1 5000 1]"

definition renamedPair :: "photo list" where
  "renamedPair = [originalPhoto, renamedCopyPhoto]"

definition edgePair :: "photo list" where
  \<comment> \<open>photos 0 and 25 are alike (same dimensions, 5000 bytes and one second apart);
      the twenty-four photos between them have other dimensions\<close>
  "edgePair = mkPhoto ''f0'' ''a'' 100 100 100000 0
     # map (\<lambda>i. mkPhoto i i 50 50 100000 0)
         [''f1'', ''f2'', ''f3'', ''f4'', ''f5'', ''f6'', ''f7'', ''f8'', ''f9'',
          ''f10'', ''f11'', ''f12'', ''f13'', ''f14'', ''f15'', ''f16'', ''f17'',
          ''f18'', ''f19'', ''f20'', ''f21'', ''f22'', ''f23'', ''f24'']
     @ [mkPhoto ''f25'' ''z'' 100 100 105000 1000]"




definition smallStore :: store where
  \<comment> \<open>two photo records at addresses 0 and 1, and the input array at address 2\<close>
  "smallStore = [PhotoObj originalPhoto, PhotoObj renamedCopyPhoto, ArrayObj [0, 1]]"

definition clockAt :: "int \<Rightarrow> nat \<Rightarrow> int" where
  \<comment> \<open>a clock that reads \<open>t\<close> in every iteration\<close>
  "clockAt t index = t"

definition lowBytesPerPixelPhoto :: photo where
  "lowBytesPerPixelPhoto = mkPhoto ''p1'' ''file:///photos/IMG_0001.jpg'' 2000 2000 300000 0"

definition zeroPixelPhoto :: photo where
  \<comment> \<open>dimensions unknown to the media library are passed as 0 by the caller\<close>
  "zeroPixelPhoto = mkPhoto ''p1'' ''file:///photos/IMG_0001.jpg'' 0 0 100 0"

section \<open>The array returned by the pipeline\<close>

declare signatureBatches.simps [simp del]

lemma upt_split: "b \<le> e \<Longrightarrow> e \<le> n \<Longrightarrow> [b..<n] = [b..<e] @ [e..<n]"
  by (metis le_Suc_ex upt_add_eq_append)

lemma signatureBatches_fst:
  "fst (signatureBatches photos cb batchStart (acc, rep)) =
     acc @ map (\<lambda>i. withSignature (photos ! i)) [batchStart..<length photos]"
proof (induction photos cb batchStart "(acc, rep)" arbitrary: acc rep rule: signatureBatches.induct)
  case (1 photos cb batchStart acc rep)
  show ?case
  proof (cases "batchStart < length photos")
    case False
    then show ?thesis by (simp add: signatureBatches.simps)
  next
    case True
    define e where "e = min (batchStart + batchSize) (length photos)"
    define acc' where "acc' = acc @ map (\<lambda>i. withSignature (photos ! i)) [batchStart..<e]"
    define rep' where
      "rep' = (if cb then rep @ [mathRound (of_nat e / of_nat (length photos) * 100)] else rep)"
    have unfold: "signatureBatches photos cb batchStart (acc, rep) =
                  signatureBatches photos cb (batchStart + batchSize) (acc', rep')"
      unfolding e_def acc'_def rep'_def
      by (subst signatureBatches.simps) (simp only: True if_True Let_def)
    have ih: "fst (signatureBatches photos cb (batchStart + batchSize) (acc', rep')) =
              acc' @ map (\<lambda>i. withSignature (photos ! i)) [batchStart + batchSize..<length photos]"
      unfolding e_def acc'_def rep'_def by (rule "1.hyps"[OF True refl refl refl refl refl])
    have "[batchStart..<length photos] = [batchStart..<e] @ [e..<length photos]"
      unfolding e_def using True by (intro upt_split) simp_all
    moreover have "[e..<length photos] = [batchStart + batchSize..<length photos]"
      unfolding e_def by (cases "batchStart + batchSize \<le> length photos") simp_all
    ultimately have "acc' @ map (\<lambda>i. withSignature (photos ! i)) [batchStart + batchSize..<length photos]
                     = acc @ map (\<lambda>i. withSignature (photos ! i)) [batchStart..<length photos]"
      by (simp add: acc'_def)
    with unfold ih show ?thesis by simp
  qed
qed

lemma signatureBatches_photos:
  "fst (signatureBatches photos cb 0 ([], [])) = map withSignature photos"
proof -
  have "map (\<lambda>i. withSignature (photos ! i)) [0..<length photos] = map withSignature photos"
    by (rule nth_equalityI) simp_all
  then show ?thesis
    using signatureBatches_fst[of photos cb 0 "[]" "[]"] by simp
qed

lemma categorizeStep_fst:
  "fst (categorizeStep pws m cb clock i st) = fst st @ [categorizePhoto pws m (clock i) i]"
  by (simp add: categorizeStep_def Let_def split: prod.splits)

lemma fold_categorizeStep_fst:
  "fst (fold (categorizeStep pws m cb clock) is st) =
     fst st @ map (\<lambda>i. categorizePhoto pws m (clock i) i) is"
  by (induction "is" arbitrary: st) (simp_all add: categorizeStep_fst)

lemma detect_fst:
  "fst (detectDuplicatesAndSimilar (Some ps) cb clock) =
     map (\<lambda>i. categorizePhoto (map withSignature ps) (groupBySignature (map withSignature ps)) (clock i) i)
         [0..<length ps]"
proof (cases "ps = []")
  case True
  then show ?thesis by (simp add: detectDuplicatesAndSimilar_def)
next
  case False
  obtain pws rep where sb: "signatureBatches ps cb 0 ([], []) = (pws, rep)"
    by (cases "signatureBatches ps cb 0 ([], [])")
  then have pws: "pws = map withSignature ps"
    using signatureBatches_photos[of ps cb] by simp
  define rep' where "rep' = (if cb then rep @ [50] else rep)"
  obtain cat rep2 where ca:
    "categorizeAll pws (groupBySignature pws) cb clock ([], rep') = (cat, rep2)"
    by (cases "categorizeAll pws (groupBySignature pws) cb clock ([], rep')")
  have "cat = fst (categorizeAll pws (groupBySignature pws) cb clock ([], rep'))"
    by (simp add: ca)
  then have cat: "cat = map (\<lambda>i. categorizePhoto pws (groupBySignature pws) (clock i) i) [0..<length pws]"
    by (simp add: categorizeAll_def fold_categorizeStep_fst)
  have "detectDuplicatesAndSimilar (Some ps) cb clock =
          (cat, if cb then rep2 @ [100] else rep2)"
    using False ca unfolding rep'_def
    by (simp add: detectDuplicatesAndSimilar_def sb Let_def)
  then show ?thesis by (simp add: cat pws)
qed


lemma truncate_withSignature: "photo.truncate (withSignature p) = p"
  by (simp add: withSignature_def photo.truncate_def)

lemma truncate_categorizePhoto:
  "photo.truncate (categorizePhoto pws m now i) = photo.truncate (pws ! i)"
  by (simp add: categorizePhoto_def Let_def photo.truncate_def)

lemma signature_categorizePhoto:
  "signature (categorizePhoto pws m now i) = signature (pws ! i)"
  by (simp add: categorizePhoto_def Let_def)

lemma detect_nth:
  "i < length ps \<Longrightarrow>
   fst (detectDuplicatesAndSimilar (Some ps) cb clock) ! i =
     categorizePhoto (map withSignature ps) (groupBySignature (map withSignature ps)) (clock i) i"
  by (simp add: detect_fst)

text \<open>
  C2. The array returned has the length of the input and its \<open>i\<close>-th record carries the
  six metadata fields of the \<open>i\<close>-th input record, together with that record's signature;
  an empty or \<open>null\<close> input gives the empty array.
\<close>

theorem output_same_length_and_order:
  "length (fst (detectDuplicatesAndSimilar (Some ps) cb clock)) = length ps
   \<and> map photo.truncate (fst (detectDuplicatesAndSimilar (Some ps) cb clock)) = ps
   \<and> map signature (fst (detectDuplicatesAndSimilar (Some ps) cb clock))
       = map generateImageSignature ps
   \<and> fst (detectDuplicatesAndSimilar (Some []) cb clock) = []
   \<and> fst (detectDuplicatesAndSimilar None cb clock) = []"
proof -
  let ?out = "fst (detectDuplicatesAndSimilar (Some ps) cb clock)"
  have len: "length ?out = length ps" by (simp add: detect_fst)
  have "map photo.truncate ?out = ps"
    by (rule nth_equalityI)
       (simp_all add: len detect_nth truncate_categorizePhoto truncate_withSignature)
  moreover have "map signature ?out = map generateImageSignature ps"
    by (rule nth_equalityI)
       (simp_all add: len detect_nth signature_categorizePhoto withSignature_def)
  moreover have "fst (detectDuplicatesAndSimilar (Some []) cb clock) = []"
    by (simp add: detectDuplicatesAndSimilar_def)
  moreover have "fst (detectDuplicatesAndSimilar None cb clock) = []"
    by (simp add: detectDuplicatesAndSimilar_def)
  ultimately show ?thesis using len by simp
qed

section \<open>The low-quality label\<close>

lemma set_uniq: "set (uniq xs) = set xs"
  by (simp add: uniq_def)

lemma lowQuality_categorizePhoto:
  "LOW_QUALITY \<in> set (categories (categorizePhoto pws m now i)) \<longleftrightarrow> isLowQuality (pws ! i)"
  by (simp add: categorizePhoto_def categoriesOf_def Let_def set_uniq)

lemma isLowQuality_withSignature: "isLowQuality (withSignature p) = isLowQuality p"
  by (simp add: isLowQuality_def withSignature_def split: option.splits)

lemma lowQuality_detect:
  "i < length ps \<Longrightarrow>
   LOW_QUALITY \<in> set (categories (fst (detectDuplicatesAndSimilar (Some ps) cb clock) ! i))
     \<longleftrightarrow> isLowQuality (ps ! i)"
  by (simp add: detect_nth lowQuality_categorizePhoto isLowQuality_withSignature)

lemma isLowQuality_iff:
  "isLowQuality p \<longleftrightarrow>
     (\<exists>w h s. width p = Some w \<and> height p = Some h \<and> size_of p = Some s \<and> w * h > 0
        \<and> (s < 50000 \<or> (w * h > 1000000 \<and> (of_int s / of_int (w * h) :: rat) < 1 / 10)))"
  by (auto simp: isLowQuality_def Let_def split: option.splits)

text \<open>
  C7, as stated, fails: a record with zero pixels (width 0, height 0) and a size of 100
  bytes, below 50000, is not labelled \<open>low_quality\<close>, because the rule is only applied when
  \<open>width * height > 0\<close>.
\<close>

theorem lowQuality_zero_pixels_counterexample:
  "size_of zeroPixelPhoto = Some 100 \<and> (100 :: int) < 50000
   \<and> LOW_QUALITY \<notin> set (categories
        (fst (detectDuplicatesAndSimilar (Some [zeroPixelPhoto]) False (clockAt 0)) ! 0))"
  by (simp add: lowQuality_detect isLowQuality_iff zeroPixelPhoto_def mkPhoto_def)

text \<open>
  C7, amended. The categories of the \<open>i\<close>-th output record include \<open>low_quality\<close> if and
  only if width, height and size are present, \<open>width * height > 0\<close>, and
  \<open>size < 50000\<close> or (\<open>width * height > 1000000\<close> and \<open>size / (width * height) < 0.1\<close>).
\<close>

theorem lowQuality_iff_rule_on_positive_pixels:
  assumes "i < length ps"
  shows "LOW_QUALITY \<in> set (categories (fst (detectDuplicatesAndSimilar (Some ps) cb clock) ! i))
     \<longleftrightarrow> (\<exists>w h s. width (ps ! i) = Some w \<and> height (ps ! i) = Some h
            \<and> size_of (ps ! i) = Some s \<and> w * h > 0
            \<and> (s < 50000 \<or> (w * h > 1000000 \<and> (of_int s / of_int (w * h) :: rat) < 1 / 10)))"
  using assms by (simp add: lowQuality_detect isLowQuality_iff)

text \<open>The scenario of the specification: 2000 by 2000 pixels in 300000 bytes.\<close>

theorem lowQuality_iff_rule_on_positive_pixels_witness:
  "(0 :: nat) < length [lowBytesPerPixelPhoto]
   \<and> width lowBytesPerPixelPhoto = Some 2000 \<and> height lowBytesPerPixelPhoto = Some 2000
   \<and> size_of lowBytesPerPixelPhoto = Some 300000
   \<and> LOW_QUALITY \<in> set (categories
        (fst (detectDuplicatesAndSimilar (Some [lowBytesPerPixelPhoto]) False (clockAt 0)) ! 0))"
  using lowQuality_iff_rule_on_positive_pixels [of 0 "[lowBytesPerPixelPhoto]" False "clockAt 0"]
  by (simp add: lowBytesPerPixelPhoto_def mkPhoto_def)

section \<open>The values passed to the progress callback\<close>



























section \<open>The signature\<close>















section \<open>Duplicate groups\<close>

lemma find_id: "find (\<lambda>p. id_of p = d) cs = Some x \<Longrightarrow> id_of x = d"
  by (auto simp: find_Some_iff)

lemma addMember_inv:
  assumes "addMember cs d (g, P) = (g', P')"
    and "id_of ` set g \<subseteq> I \<union> (P - P0)" and "P0 \<subseteq> P"
  shows "id_of ` set g' \<subseteq> I \<union> (P' - P0) \<and> P0 \<subseteq> P'"
proof (cases "find (\<lambda>p. id_of p = d) cs")
  case None
  then show ?thesis using assms by (simp add: addMember_def)
next
  case (Some x)
  then have x: "id_of x = d" by (rule find_id)
  show ?thesis
  proof (cases "d \<in> P")
    case True
    then show ?thesis using assms Some by (simp add: addMember_def)
  next
    case False
    then have "g' = g @ [x]" "P' = insert d P"
      using assms(1) Some by (simp_all add: addMember_def)
    moreover have "d \<notin> P0" using False assms(3) by blast
    ultimately show ?thesis using assms(2,3) x by auto
  qed
qed

lemma fold_addMember_inv:
  assumes "fold (addMember cs) ds (g, P) = (g', P')"
    and "id_of ` set g \<subseteq> I \<union> (P - P0)" and "P0 \<subseteq> P"
  shows "id_of ` set g' \<subseteq> I \<union> (P' - P0) \<and> P0 \<subseteq> P'"
  using assms
proof (induction ds arbitrary: g P)
  case Nil
  then show ?case by simp
next
  case (Cons d ds)
  obtain g1 P1 where s: "addMember cs d (g, P) = (g1, P1)"
    by (cases "addMember cs d (g, P)")
  from addMember_inv[OF s Cons.prems(2,3)]
  have a: "id_of ` set g1 \<subseteq> I \<union> (P1 - P0)" and b: "P0 \<subseteq> P1" by simp_all
  have c: "fold (addMember cs) ds (g1, P1) = (g', P')"
    using Cons.prems(1) s by simp
  show ?case by (rule Cons.IH[OF c a b])
qed

lemma addGroup_inv:
  assumes "groups_inv st"
  shows "groups_inv (addGroup cs photo st)"
proof -
  obtain groups P where st: "st = (groups, P)" by (cases st)
  show ?thesis
  proof (cases "id_of photo \<in> P")
    case True
    then show ?thesis using assms by (simp add: addGroup_def st)
  next
    case False
    obtain g P' where f: "fold (addMember cs) (duplicateIds photo) ([photo], P) = (g, P')"
      by (cases "fold (addMember cs) (duplicateIds photo) ([photo], P)")
    have "id_of ` set g \<subseteq> {id_of photo} \<union> (P' - P) \<and> P \<subseteq> P'"
      by (rule fold_addMember_inv[OF f]) simp_all
    then have g: "id_of ` set g \<subseteq> {id_of photo} \<union> (P' - P)" and PP: "P \<subseteq> P'" by simp_all
    have old: "\<forall>h\<in>set groups. id_of ` set h \<subseteq> P"
      and dis: "\<forall>i j. i < j \<and> j < length groups
                 \<longrightarrow> id_of ` set (groups ! i) \<inter> id_of ` set (groups ! j) = {}"
      using assms by (simp_all add: groups_inv_def st)
    show ?thesis
    proof (cases "length g > 1")
      case short: False
      then have "addGroup cs photo st = (groups, P')"
        using False f by (simp add: addGroup_def st)
      moreover have "\<forall>h\<in>set groups. id_of ` set h \<subseteq> P'" using old PP by blast
      ultimately show ?thesis using dis by (simp add: groups_inv_def)
    next
      case True
      then have r: "addGroup cs photo st = (groups @ [g], insert (id_of photo) P')"
        using False f by (simp add: addGroup_def st)
      have "\<forall>h\<in>set groups. id_of ` set h \<subseteq> insert (id_of photo) P'"
        using old PP by blast
      moreover have "id_of ` set g \<subseteq> insert (id_of photo) P'" using g by blast
      ultimately have sub: "\<forall>h\<in>set (groups @ [g]). id_of ` set h \<subseteq> insert (id_of photo) P'"
        by simp
      have fresh: "({id_of photo} \<union> (P' - P)) \<inter> P = {}" using False by blast
      have new: "id_of ` set h \<inter> id_of ` set g = {}" if "h \<in> set groups" for h
      proof -
        have "id_of ` set h \<subseteq> P" using old that by blast
        then show ?thesis using g fresh by blast
      qed
      have "id_of ` set ((groups @ [g]) ! i) \<inter> id_of ` set ((groups @ [g]) ! j) = {}"
        if "i < j" "j < length (groups @ [g])" for i j
      proof (cases "j < length groups")
        case True
        then show ?thesis using dis that by (simp add: nth_append)
      next
        case False
        then have j: "j = length groups" using that by simp
        then have "groups ! i \<in> set groups" using that by simp
        then show ?thesis using new that j by (simp add: nth_append)
      qed
      then show ?thesis using sub by (simp add: groups_inv_def r)
    qed
  qed
qed

lemma fold_addGroup_inv: "groups_inv st \<Longrightarrow> groups_inv (fold (addGroup cs) ps st)"
  by (induction ps arbitrary: st) (simp_all add: addGroup_inv)

lemma getDuplicateGroups_inv:
  "groups_inv (fold (addGroup cs) (filter isDuplicate cs) ([], {}))"
proof -
  have "groups_inv ([], {})" by (simp add: groups_inv_def)
  then show ?thesis by (rule fold_addGroup_inv)
qed

lemma twoPairs_groups:
  "map (map id_of) (getDuplicateGroups twoPairs) = [[''a'', ''b''], [''c'', ''d'']]"
  by (simp add: twoPairs_def mkCategorized_def getDuplicateGroups_def addGroup_def addMember_def)

text \<open>
  C9. No photo id is a member of two distinct groups returned by \<open>getDuplicateGroups\<close>:
  the groups at two different positions of the result have no id in common.
\<close>

theorem duplicate_groups_share_no_id:
  assumes "i < j" and "j < length (getDuplicateGroups cs)"
  shows "id_of ` set (getDuplicateGroups cs ! i) \<inter> id_of ` set (getDuplicateGroups cs ! j) = {}"
  using assms getDuplicateGroups_inv[of cs]
  by (simp add: groups_inv_def getDuplicateGroups_def Let_def)

theorem duplicate_groups_share_no_id_witness:
  "(0 :: nat) < 1 \<and> 1 < length (getDuplicateGroups twoPairs)
   \<and> id_of ` set (getDuplicateGroups twoPairs ! 0) \<inter> id_of ` set (getDuplicateGroups twoPairs ! 1) = {}"
proof -
  have "length (map (map id_of) (getDuplicateGroups twoPairs)) = 2"
    unfolding twoPairs_groups by simp
  then have len: "1 < length (getDuplicateGroups twoPairs)" by simp
  show ?thesis
    using duplicate_groups_share_no_id [of 0 1 twoPairs] len by simp
qed

section \<open>The duplicate lists\<close>

lemma fold_addToSignatureMap:
  "(case fold (addToSignatureMap pws) is m0 s of None \<Rightarrow> [] | Some es \<Rightarrow> es) =
     (case m0 s of None \<Rightarrow> [] | Some es \<Rightarrow> es)
     @ map (\<lambda>k. (pws ! k, k)) (filter (\<lambda>k. signature (pws ! k) = s) is)"
proof (induction "is" arbitrary: m0)
  case Nil
  then show ?case by simp
next
  case (Cons i "is")
  have "(case addToSignatureMap pws i m0 s of None \<Rightarrow> [] | Some es \<Rightarrow> es)
        = (case m0 s of None \<Rightarrow> [] | Some es \<Rightarrow> es)
          @ (if signature (pws ! i) = s then [(pws ! i, i)] else [])"
    by (simp add: addToSignatureMap_def Let_def split: option.splits)
  then show ?case by (simp add: Cons.IH)
qed

lemma sameSignaturePhotos_eq:
  "(case groupBySignature pws s of None \<Rightarrow> [] | Some es \<Rightarrow> es)
   = map (\<lambda>k. (pws ! k, k)) (filter (\<lambda>k. signature (pws ! k) = s) [0..<length pws])"
  by (simp add: groupBySignature_def fold_addToSignatureMap)

lemma fold_addSignatureDuplicate:
  "fold (addSignatureDuplicate index) es (d, ids) =
     (d @ map fst (filter (\<lambda>e. snd e \<noteq> index) es),
      ids \<union> id_of ` set (map fst (filter (\<lambda>e. snd e \<noteq> index) es)))"
  by (induction es arbitrary: d ids) (auto simp: addSignatureDuplicate_def)

lemma signatureDuplicates_eq:
  "signatureDuplicates (map (\<lambda>k. (pws ! k, k)) ks) index =
     (map ((!) pws) (filter (\<lambda>k. k \<noteq> index) ks),
      id_of ` set (map ((!) pws) (filter (\<lambda>k. k \<noteq> index) ks)))"
  by (simp add: signatureDuplicates_def fold_addSignatureDuplicate filter_map comp_def)


declare filenameDuplicates.simps [simp del]

lemma filenameDuplicates_inv:
  assumes "ids = id_of ` set d"
  shows "\<exists>ks. fst (filenameDuplicates pws index fb j (d, ids)) = d @ map ((!) pws) ks
            \<and> snd (filenameDuplicates pws index fb j (d, ids))
                = id_of ` set (d @ map ((!) pws) ks)
            \<and> (\<forall>k\<in>set ks. j \<le> k \<and> k < length pws \<and> k \<noteq> index
                   \<and> filenameBase (uri (pws ! k)) = fb \<and> fb \<noteq> [])
            \<and> (length (d @ map ((!) pws) ks) < 20 \<longrightarrow>
                 (\<forall>k. j \<le> k \<and> k < length pws \<and> k \<noteq> index
                      \<and> filenameBase (uri (pws ! k)) = fb \<and> fb \<noteq> []
                    \<longrightarrow> id_of (pws ! k) \<in> id_of ` set (d @ map ((!) pws) ks)))"
  using assms
proof (induction "length pws - j" arbitrary: j d ids rule: less_induct)
  case less
  let ?R = "\<lambda>j d ids ks. fst (filenameDuplicates pws index fb j (d, ids)) = d @ map ((!) pws) ks
            \<and> snd (filenameDuplicates pws index fb j (d, ids))
                = id_of ` set (d @ map ((!) pws) ks)
            \<and> (\<forall>k\<in>set ks. j \<le> k \<and> k < length pws \<and> k \<noteq> index
                   \<and> filenameBase (uri (pws ! k)) = fb \<and> fb \<noteq> [])
            \<and> (length (d @ map ((!) pws) ks) < 20 \<longrightarrow>
                 (\<forall>k. j \<le> k \<and> k < length pws \<and> k \<noteq> index
                      \<and> filenameBase (uri (pws ! k)) = fb \<and> fb \<noteq> []
                    \<longrightarrow> id_of (pws ! k) \<in> id_of ` set (d @ map ((!) pws) ks)))"
  show ?case
  proof (cases "j < length pws \<and> length d < 20")
    case False
    then have "filenameDuplicates pws index fb j (d, ids) = (d, ids)"
      by (subst filenameDuplicates.simps) (simp only: if_False)
    then have "?R j d ids []" using False less.prems by auto
    then show ?thesis by blast
  next
    case True
    then have jn: "j < length pws" and dn: "length d < 20" by simp_all
    from jn have dec: "length pws - (j + 1) < length pws - j" by simp
    show ?thesis
    proof (cases "j = index \<or> id_of (pws ! j) \<in> ids")
      case skip: True
      have u: "filenameDuplicates pws index fb j (d, ids)
               = filenameDuplicates pws index fb (j + 1) (d, ids)"
        using True skip by (subst filenameDuplicates.simps) simp
      obtain ks where ks: "?R (j + 1) d ids ks"
        using less.hyps[OF dec less.prems] by blast
      have "id_of (pws ! j) \<in> id_of ` set (d @ map ((!) pws) ks)" if "j \<noteq> index"
        using skip that less.prems by auto
      then have "?R j d ids ks"
        using ks unfolding u
        by (metis Suc_eq_plus1 Suc_leD Suc_leI le_neq_implies_less)
      then show ?thesis by blast
    next
      case noskip: False
      show ?thesis
      proof (cases "fb = filenameBase (uri (pws ! j)) \<and> length fb > 0")
        case nomatch: False
        have u: "filenameDuplicates pws index fb j (d, ids)
                 = filenameDuplicates pws index fb (j + 1) (d, ids)"
          using True noskip nomatch by (subst filenameDuplicates.simps) (auto simp: Let_def)
        obtain ks where ks: "?R (j + 1) d ids ks"
          using less.hyps[OF dec less.prems] by blast
        have "?R j d ids ks"
          using ks nomatch unfolding u
          by (metis (no_types, lifting) Suc_eq_plus1 Suc_leD Suc_leI le_neq_implies_less length_greater_0_conv)
        then show ?thesis by blast
      next
        case match: True
        let ?d = "d @ [pws ! j]" and ?ids = "insert (id_of (pws ! j)) ids"
        have u: "filenameDuplicates pws index fb j (d, ids)
                 = filenameDuplicates pws index fb (j + 1) (?d, ?ids)"
          using True noskip match by (subst filenameDuplicates.simps) (auto simp: Let_def)
        have "?ids = id_of ` set ?d" using less.prems by simp
        from less.hyps[OF dec this]
        obtain ks where ks: "?R (j + 1) ?d ?ids ks" by blast
        have app: "?d @ map ((!) pws) ks = d @ map ((!) pws) (j # ks)" by simp
        have "?R j d ids (j # ks)"
          unfolding u using ks True noskip match unfolding app
          apply (intro conjI)
             apply simp
            apply simp
           apply (simp; fail | (auto)[1])
          apply (metis (no_types, lifting) Suc_eq_plus1 Suc_leI le_neq_implies_less list.set_intros(1) image_eqI in_set_conv_decomp set_append set_map list.simps(9) UnCI)
          done
        then show ?thesis by blast
      qed
    qed
  qed
qed


lemma filter_indices: "map ((!) xs) (filter (\<lambda>k. P (xs ! k)) [0..<length xs]) = filter P xs"
proof -
  have "map ((!) xs) (filter (P \<circ> (!) xs) [0..<length xs]) = filter P (map ((!) xs) [0..<length xs])"
    by (simp only: filter_map)
  then show ?thesis by (simp add: comp_def map_nth)
qed

lemma length_filter_indices:
  "length (filter (\<lambda>k. P (xs ! k)) [0..<length xs]) = length (filter P xs)"
  using arg_cong[OF filter_indices[of xs P], of length] by simp

lemma sigOthers_less:
  assumes "i < length pws"
  shows "length (sigOthers pws i) < length (filter (\<lambda>p. signature p = signature (pws ! i)) pws)"
proof -
  let ?same = "filter (\<lambda>k. signature (pws ! k) = signature (pws ! i)) [0..<length pws]"
  have "i \<in> set ?same" using assms by simp
  then have "length (filter (\<lambda>k. k \<noteq> i) ?same) < length ?same"
    by (rule length_filter_less) simp
  then show ?thesis
    using length_filter_indices[of "\<lambda>p. signature p = signature (pws ! i)" pws]
    by (simp add: sigOthers_def)
qed

lemma findDuplicates_shape:
  fixes pws i
  defines "d0 \<equiv> map ((!) pws) (sigOthers pws i)"
  defines "fb \<equiv> filenameBase (uri (pws ! i))"
  shows "\<exists>ks. fst (findDuplicates pws (groupBySignature pws) i) = d0 @ map ((!) pws) ks
          \<and> (\<forall>k\<in>set ks. k < length pws \<and> k \<noteq> i \<and> filenameBase (uri (pws ! k)) = fb \<and> fb \<noteq> [])
          \<and> (length d0 < 10 \<and> length (d0 @ map ((!) pws) ks) < 20 \<longrightarrow>
               (\<forall>k. k < length pws \<and> k \<noteq> i \<and> filenameBase (uri (pws ! k)) = fb \<and> fb \<noteq> []
                  \<longrightarrow> id_of (pws ! k) \<in> id_of ` set (d0 @ map ((!) pws) ks)))"
proof -
  have st: "signatureDuplicates
              (case groupBySignature pws (signature (pws ! i)) of None \<Rightarrow> [] | Some es \<Rightarrow> es) i
            = (d0, id_of ` set d0)"
    unfolding sameSignaturePhotos_eq signatureDuplicates_eq d0_def sigOthers_def ..
  show ?thesis
  proof (cases "length d0 < 10")
    case False
    then have "fst (findDuplicates pws (groupBySignature pws) i) = d0 @ map ((!) pws) []"
      by (simp add: findDuplicates_def Let_def st)
    with False show ?thesis by (intro exI[of _ "[]"]) simp
  next
    case True
    then have f: "findDuplicates pws (groupBySignature pws) i
                  = filenameDuplicates pws i fb 0 (d0, id_of ` set d0)"
      by (simp add: findDuplicates_def Let_def st fb_def)
    from filenameDuplicates_inv[OF refl, of pws i fb 0 d0]
    show ?thesis unfolding f by (auto; blast)
  qed
qed


lemma sigOthers_iff:
  "k \<in> set (sigOthers pws i) \<longleftrightarrow> k < length pws \<and> k \<noteq> i \<and> signature (pws ! k) = signature (pws ! i)"
  by (auto simp: sigOthers_def)

lemma duplicates_symmetric_pws:
  assumes dist: "distinct (map id_of pws)" and i: "i < length pws" and j: "j < length pws"
    and mem: "id_of (pws ! j) \<in> id_of ` set (fst (findDuplicates pws (groupBySignature pws) i))"
    and H: "signature (pws ! i) = signature (pws ! j)
            \<or> (length (sigOthers pws j) < 10
                \<and> length (fst (findDuplicates pws (groupBySignature pws) j)) < 20)"
  shows "id_of (pws ! i) \<in> id_of ` set (fst (findDuplicates pws (groupBySignature pws) j))"
proof -
  let ?fb = "\<lambda>k. filenameBase (uri (pws ! k))"
  have inj: "k = l" if "id_of (pws ! k) = id_of (pws ! l)" "k < length pws" "l < length pws" for k l
    using dist that by (metis length_map nth_eq_iff_index_eq nth_map)
  obtain ks where
    fi: "fst (findDuplicates pws (groupBySignature pws) i)
         = map ((!) pws) (sigOthers pws i) @ map ((!) pws) ks"
    and ks: "\<forall>k\<in>set ks. k < length pws \<and> k \<noteq> i \<and> ?fb k = ?fb i \<and> ?fb i \<noteq> []"
    using findDuplicates_shape[of pws i] by blast
  from mem obtain k where k: "k \<in> set (sigOthers pws i) \<union> set ks"
    and idk: "id_of (pws ! j) = id_of (pws ! k)"
    unfolding fi by auto
  have kn: "k < length pws" and ki: "k \<noteq> i"
    using k ks by (auto simp: sigOthers_iff)
  have jk: "j = k" using inj[OF idk j kn] .
  have rel: "signature (pws ! j) = signature (pws ! i) \<or> (?fb j = ?fb i \<and> ?fb i \<noteq> [])"
    using k ks unfolding jk by (auto simp: sigOthers_iff)
  have ij: "i \<noteq> j" using ki jk by simp
  obtain ks' where
    fj: "fst (findDuplicates pws (groupBySignature pws) j)
         = map ((!) pws) (sigOthers pws j) @ map ((!) pws) ks'"
    and compl: "length (map ((!) pws) (sigOthers pws j)) < 10
                \<and> length (map ((!) pws) (sigOthers pws j) @ map ((!) pws) ks') < 20 \<longrightarrow>
               (\<forall>k. k < length pws \<and> k \<noteq> j \<and> ?fb k = ?fb j \<and> ?fb j \<noteq> []
                  \<longrightarrow> id_of (pws ! k) \<in> id_of ` set (map ((!) pws) (sigOthers pws j) @ map ((!) pws) ks'))"
    using findDuplicates_shape[of pws j] by blast
  show ?thesis
  proof (cases "signature (pws ! i) = signature (pws ! j)")
    case True
    then have "i \<in> set (sigOthers pws j)" using i ij by (simp add: sigOthers_iff)
    then show ?thesis unfolding fj by auto
  next
    case False
    with H have trunc: "length (sigOthers pws j) < 10"
      "length (fst (findDuplicates pws (groupBySignature pws) j)) < 20" by simp_all
    from False rel have fb: "?fb j = ?fb i" "?fb i \<noteq> []" by auto
    have "id_of (pws ! i) \<in> id_of ` set (map ((!) pws) (sigOthers pws j) @ map ((!) pws) ks')"
      using compl trunc i ij fb unfolding fj by simp
    then show ?thesis unfolding fj .
  qed
qed

lemma id_of_withSignature: "id_of (withSignature p) = id_of p"
  by (simp add: withSignature_def)

lemma duplicateIds_categorizePhoto:
  "duplicateIds (categorizePhoto pws m now i) = map id_of (fst (findDuplicates pws m i))"
  "duplicateCount (categorizePhoto pws m now i) = length (fst (findDuplicates pws m i))"
  "id_of (categorizePhoto pws m now i) = id_of (pws ! i)"
  by (simp_all add: categorizePhoto_def Let_def)

lemma duplicates_symmetric_detect:
  assumes dist: "distinct (map id_of ps)" and i: "i < length ps" and j: "j < length ps"
    and mem: "id_of (fst (detectDuplicatesAndSimilar (Some ps) cb clock) ! j)
              \<in> set (duplicateIds (fst (detectDuplicatesAndSimilar (Some ps) cb clock) ! i))"
    and H: "signature (fst (detectDuplicatesAndSimilar (Some ps) cb clock) ! i)
              = signature (fst (detectDuplicatesAndSimilar (Some ps) cb clock) ! j)
            \<or> (length (filter (\<lambda>c. signature c
                       = signature (fst (detectDuplicatesAndSimilar (Some ps) cb clock) ! j))
                    (fst (detectDuplicatesAndSimilar (Some ps) cb clock))) \<le> 10
                \<and> duplicateCount (fst (detectDuplicatesAndSimilar (Some ps) cb clock) ! j) < 20)"
  shows "id_of (fst (detectDuplicatesAndSimilar (Some ps) cb clock) ! i)
         \<in> set (duplicateIds (fst (detectDuplicatesAndSimilar (Some ps) cb clock) ! j))"
proof -
  let ?pws = "map withSignature ps"
  let ?out = "fst (detectDuplicatesAndSimilar (Some ps) cb clock)"
  have dist': "distinct (map id_of ?pws)"
    using dist by (simp add: comp_def id_of_withSignature)
  have sigs: "map signature ?out = map signature ?pws"
    by (rule nth_equalityI) (simp_all add: detect_fst signature_categorizePhoto)
  have "length (filter (\<lambda>c. signature c = s) ?out) = length (filter (\<lambda>p. signature p = s) ?pws)" for s
  proof -
    have "length (filter (\<lambda>c. signature c = s) ?out) = length (filter (\<lambda>x. x = s) (map signature ?out))"
      by (simp add: filter_map comp_def)
    also have "\<dots> = length (filter (\<lambda>p. signature p = s) ?pws)"
      unfolding sigs by (simp add: filter_map comp_def)
    finally show ?thesis .
  qed
  note cnt = this
  have H': "signature (?pws ! i) = signature (?pws ! j)
            \<or> (length (sigOthers ?pws j) < 10
                \<and> length (fst (findDuplicates ?pws (groupBySignature ?pws) j)) < 20)"
  proof -
    have "length (sigOthers ?pws j) < length (filter (\<lambda>p. signature p = signature (?pws ! j)) ?pws)"
      by (rule sigOthers_less) (simp add: j)
    then show ?thesis
      using H i j cnt[of "signature (?pws ! j)"]
      by (auto simp: detect_nth signature_categorizePhoto duplicateIds_categorizePhoto)
  qed
  have "id_of (?pws ! i) \<in> id_of ` set (fst (findDuplicates ?pws (groupBySignature ?pws) j))"
    using mem i j
    by (intro duplicates_symmetric_pws[OF dist' _ _ _ H'])
       (simp_all add: detect_nth duplicateIds_categorizePhoto)
  then show ?thesis
    using i j by (simp add: detect_nth duplicateIds_categorizePhoto)
qed

lemma nth_of_map_eq: "map f xs = ys \<Longrightarrow> k < length xs \<Longrightarrow> f (xs ! k) = ys ! k"
  by (metis nth_map)

lemma crowd_duplicates:
  "map (\<lambda>c. (id_of c, duplicateIds c))
       (fst (detectDuplicatesAndSimilar (Some crowd) False (clockAt 0))) =
     [(''p0'', [''p1'', ''p2'', ''p3'', ''p4'', ''p5'', ''p6'', ''p7'', ''p8'', ''p9'', ''p10'']),
      (''p1'', [''p0'', ''p2'', ''p3'', ''p4'', ''p5'', ''p6'', ''p7'', ''p8'', ''p9'', ''p10'']),
      (''p2'', [''p0'', ''p1'', ''p3'', ''p4'', ''p5'', ''p6'', ''p7'', ''p8'', ''p9'', ''p10'']),
      (''p3'', [''p0'', ''p1'', ''p2'', ''p4'', ''p5'', ''p6'', ''p7'', ''p8'', ''p9'', ''p10'']),
      (''p4'', [''p0'', ''p1'', ''p2'', ''p3'', ''p5'', ''p6'', ''p7'', ''p8'', ''p9'', ''p10'']),
      (''p5'', [''p0'', ''p1'', ''p2'', ''p3'', ''p4'', ''p6'', ''p7'', ''p8'', ''p9'', ''p10'']),
      (''p6'', [''p0'', ''p1'', ''p2'', ''p3'', ''p4'', ''p5'', ''p7'', ''p8'', ''p9'', ''p10'']),
      (''p7'', [''p0'', ''p1'', ''p2'', ''p3'', ''p4'', ''p5'', ''p6'', ''p8'', ''p9'', ''p10'']),
      (''p8'', [''p0'', ''p1'', ''p2'', ''p3'', ''p4'', ''p5'', ''p6'', ''p7'', ''p9'', ''p10'']),
      (''p9'', [''p0'', ''p1'', ''p2'', ''p3'', ''p4'', ''p5'', ''p6'', ''p7'', ''p8'', ''p10'']),
      (''p10'', [''p0'', ''p1'', ''p2'', ''p3'', ''p4'', ''p5'', ''p6'', ''p7'', ''p8'', ''p9'']),
      (''p11'', [''p0'', ''p1'', ''p2'', ''p3'', ''p4'', ''p5'', ''p6'', ''p7'', ''p8'', ''p9'', ''p10''])]"
  by code_simp

lemma length_crowd: "length crowd = 12"
  by (simp add: crowd_def)

lemma renamedPair_duplicates:
  "map (\<lambda>c. (id_of c, signature c, duplicateIds c))
       (fst (detectDuplicatesAndSimilar (Some renamedPair) False (clockAt 0))) =
     [(''a'', ''cvqowk'', [''b'']), (''b'', ''cvqowk'', [''a''])]"
  by code_simp

text \<open>
  C4, as stated, fails. In \<open>crowd\<close> photo 0 has ten other photos with its signature, so
  its file-name pass is skipped (it runs only below ten duplicates) and it does not list
  photo 11, whose signature differs; photo 11 has no signature duplicate, runs the
  file-name pass, and lists photo 0.
\<close>

theorem duplicate_symmetry_counterexample:
  "id_of (fst (detectDuplicatesAndSimilar (Some crowd) False (clockAt 0)) ! 0)
     \<in> set (duplicateIds (fst (detectDuplicatesAndSimilar (Some crowd) False (clockAt 0)) ! 11))
   \<and> id_of (fst (detectDuplicatesAndSimilar (Some crowd) False (clockAt 0)) ! 11)
     \<notin> set (duplicateIds (fst (detectDuplicatesAndSimilar (Some crowd) False (clockAt 0)) ! 0))"
proof -
  let ?out = "fst (detectDuplicatesAndSimilar (Some crowd) False (clockAt 0))"
  have len: "length ?out = 12" by (simp add: detect_fst length_crowd)
  have "(id_of (?out ! 0), duplicateIds (?out ! 0))
        = (''p0'', [''p1'', ''p2'', ''p3'', ''p4'', ''p5'', ''p6'', ''p7'', ''p8'', ''p9'', ''p10''])"
    using nth_of_map_eq[OF crowd_duplicates, of 0] len by simp
  moreover have "(id_of (?out ! 11), duplicateIds (?out ! 11))
        = (''p11'', [''p0'', ''p1'', ''p2'', ''p3'', ''p4'', ''p5'', ''p6'', ''p7'', ''p8'', ''p9'', ''p10''])"
    using nth_of_map_eq[OF crowd_duplicates, of 11] len by simp
  ultimately show ?thesis by simp
qed

text \<open>
  C4, amended. For an input with pairwise distinct ids and output records \<open>A\<close> (at \<open>i\<close>)
  and \<open>B\<close> (at \<open>j\<close>) of one run: if \<open>B\<close>'s id is in \<open>A\<close>'s \<open>duplicateIds\<close>, and either \<open>A\<close>
  and \<open>B\<close> have the same signature, or at most ten records carry \<open>B\<close>'s signature (\<open>B\<close>
  included) and \<open>B\<close> has fewer than twenty duplicates, then \<open>A\<close>'s id is in \<open>B\<close>'s
  \<open>duplicateIds\<close>.
\<close>

theorem duplicate_symmetry_without_truncation:
  assumes "distinct (map id_of ps)" and "i < length ps" and "j < length ps"
    and "id_of (fst (detectDuplicatesAndSimilar (Some ps) cb clock) ! j)
           \<in> set (duplicateIds (fst (detectDuplicatesAndSimilar (Some ps) cb clock) ! i))"
    and "signature (fst (detectDuplicatesAndSimilar (Some ps) cb clock) ! i)
           = signature (fst (detectDuplicatesAndSimilar (Some ps) cb clock) ! j)
         \<or> (length (filter (\<lambda>c. signature c
                    = signature (fst (detectDuplicatesAndSimilar (Some ps) cb clock) ! j))
                 (fst (detectDuplicatesAndSimilar (Some ps) cb clock))) \<le> 10
             \<and> duplicateCount (fst (detectDuplicatesAndSimilar (Some ps) cb clock) ! j) < 20)"
  shows "id_of (fst (detectDuplicatesAndSimilar (Some ps) cb clock) ! i)
         \<in> set (duplicateIds (fst (detectDuplicatesAndSimilar (Some ps) cb clock) ! j))"
  using assms by (rule duplicates_symmetric_detect)

text \<open>The scenario of the specification: \<open>IMG_001.jpg\<close> and \<open>IMG_001 (1).jpg\<close>.\<close>

theorem duplicate_symmetry_without_truncation_witness:
  "distinct (map id_of renamedPair) \<and> (0 :: nat) < length renamedPair \<and> 1 < length renamedPair
   \<and> id_of (fst (detectDuplicatesAndSimilar (Some renamedPair) False (clockAt 0)) ! 1)
       \<in> set (duplicateIds (fst (detectDuplicatesAndSimilar (Some renamedPair) False (clockAt 0)) ! 0))
   \<and> signature (fst (detectDuplicatesAndSimilar (Some renamedPair) False (clockAt 0)) ! 0)
       = signature (fst (detectDuplicatesAndSimilar (Some renamedPair) False (clockAt 0)) ! 1)
   \<and> id_of (fst (detectDuplicatesAndSimilar (Some renamedPair) False (clockAt 0)) ! 0)
       \<in> set (duplicateIds (fst (detectDuplicatesAndSimilar (Some renamedPair) False (clockAt 0)) ! 1))"
proof -
  let ?out = "fst (detectDuplicatesAndSimilar (Some renamedPair) False (clockAt 0))"
  have len: "length ?out = 2" by (simp add: detect_fst renamedPair_def)
  have r0: "(id_of (?out ! 0), signature (?out ! 0), duplicateIds (?out ! 0))
            = (''a'', ''cvqowk'', [''b''])"
    using nth_of_map_eq[OF renamedPair_duplicates, of 0] len by simp
  have r1: "(id_of (?out ! 1), signature (?out ! 1), duplicateIds (?out ! 1))
            = (''b'', ''cvqowk'', [''a''])"
    using nth_of_map_eq[OF renamedPair_duplicates, of 1] len by simp
  have d: "distinct (map id_of renamedPair)"
    by (simp add: renamedPair_def originalPhoto_def renamedCopyPhoto_def mkPhoto_def)
  have l: "(0 :: nat) < length renamedPair" "1 < length renamedPair"
    by (simp_all add: renamedPair_def)
  have m: "id_of (?out ! 1) \<in> set (duplicateIds (?out ! 0))" using r0 r1 by simp
  have s: "signature (?out ! 0) = signature (?out ! 1)" using r0 r1 by simp
  show ?thesis
    using duplicate_symmetry_without_truncation [OF d l m disjI1, OF s] d l m s
    by simp
qed

section \<open>Similar photos and bursts\<close>

lemma findDuplicates_idSet:
  "snd (findDuplicates pws (groupBySignature pws) i)
   = id_of ` set (fst (findDuplicates pws (groupBySignature pws) i))"
proof -
  define d0 where "d0 = map ((!) pws) (sigOthers pws i)"
  have st: "signatureDuplicates
              (case groupBySignature pws (signature (pws ! i)) of None \<Rightarrow> [] | Some es \<Rightarrow> es) i
            = (d0, id_of ` set d0)"
    unfolding sameSignaturePhotos_eq signatureDuplicates_eq d0_def sigOthers_def ..
  show ?thesis
  proof (cases "length d0 < 10")
    case False
    then show ?thesis by (simp add: findDuplicates_def Let_def st)
  next
    case True
    then have f: "findDuplicates pws (groupBySignature pws) i
                  = filenameDuplicates pws i (filenameBase (uri (pws ! i))) 0 (d0, id_of ` set d0)"
      by (simp add: findDuplicates_def Let_def st)
    from filenameDuplicates_inv[OF refl, of pws i "filenameBase (uri (pws ! i))" 0 d0]
    show ?thesis unfolding f by auto
  qed
qed

lemma findDuplicates_none:
  assumes "fst (findDuplicates pws (groupBySignature pws) i) = []"
  shows "findDuplicates pws (groupBySignature pws) i = ([], {})"
  using findDuplicates_idSet[of pws i] assms by (simp add: prod_eq_iff)

lemma scanStep_eq:
  "scanStep pws index idSet i similar =
     (if qualifies pws index idSet i \<and> length similar < 5 then similar @ [pws ! i] else similar)"
  by (auto simp: scanStep_def qualifies_def Let_def)

lemma fold_scanStep:
  "fold (scanStep pws index idSet) ks acc =
     acc @ map ((!) pws) (take (5 - length acc) (filter (qualifies pws index idSet) ks))"
proof (induction ks arbitrary: acc)
  case Nil
  then show ?case by simp
next
  case (Cons k ks)
  show ?case
  proof (cases "qualifies pws index idSet k \<and> length acc < 5")
    case True
    then obtain m where m: "5 - length acc = Suc m" by (cases "5 - length acc") simp_all
    then have m': "5 - length (acc @ [pws ! k]) = m" by simp
    have step: "scanStep pws index idSet k acc = acc @ [pws ! k]"
      using True by (simp add: scanStep_eq)
    have "fold (scanStep pws index idSet) (k # ks) acc
          = fold (scanStep pws index idSet) ks (acc @ [pws ! k])"
      by (simp only: fold_simps step)
    also have "\<dots> = (acc @ [pws ! k])
                 @ map ((!) pws) (take m (filter (qualifies pws index idSet) ks))"
      by (simp only: Cons.IH m')
    finally show ?thesis using True m by simp
  next
    case False
    then have step: "scanStep pws index idSet k acc = acc"
      by (simp add: scanStep_eq)
    have "fold (scanStep pws index idSet) (k # ks) acc = fold (scanStep pws index idSet) ks acc"
      by (simp only: fold_simps step)
    then show ?thesis using False by (auto simp: Cons.IH)
  qed
qed

lemma similarScan_eq:
  "similarScan pws index idSet =
     map ((!) pws) (take 5 (filter (qualifies pws index idSet)
                              [index - 25..<min (length pws) (index + 25)]))"
  by (simp add: similarScan_def Let_def fold_scanStep checkRange_def)

lemma similar_labels:
  "SIMILAR \<in> set (categories (categorizePhoto pws m now i))
     \<longleftrightarrow> 0 < length (findSimilar pws i (findDuplicates pws m i))
         \<and> length (findSimilar pws i (findDuplicates pws m i)) \<le> 2"
  "BURST \<in> set (categories (categorizePhoto pws m now i))
     \<longleftrightarrow> 2 < length (findSimilar pws i (findDuplicates pws m i))"
  by (auto simp: categorizePhoto_def categoriesOf_def Let_def set_uniq)

lemma edge_duplicates_0:
  "fst (findDuplicates (map withSignature edgePair) (groupBySignature (map withSignature edgePair)) 0) = []"
  by code_simp

lemma edge_duplicates_25:
  "fst (findDuplicates (map withSignature edgePair) (groupBySignature (map withSignature edgePair)) 25) = []"
  by code_simp

lemma edge_similar_0: "similarScan (map withSignature edgePair) 0 {} = []"
  by code_simp

lemma edge_similar_25: "length (similarScan (map withSignature edgePair) 25 {}) = 1"
  by code_simp

lemma edge_neighbour:
  "qualifies (map withSignature edgePair) 0 {} 25"
  by code_simp

lemma length_edgePair: "length edgePair = 26"
  by (simp add: edgePair_def)

lemma similar_labels_window:
  assumes "i < length ps"
    and "duplicateCount (fst (detectDuplicatesAndSimilar (Some ps) cb clock) ! i) = 0"
  shows "SIMILAR \<in> set (categories (fst (detectDuplicatesAndSimilar (Some ps) cb clock) ! i))
         \<longleftrightarrow> 0 < length (take 5 (filter (qualifies (map withSignature ps) i {})
                                   [i - 25..<min (length ps) (i + 25)]))
             \<and> length (take 5 (filter (qualifies (map withSignature ps) i {})
                                   [i - 25..<min (length ps) (i + 25)])) \<le> 2"
    and "BURST \<in> set (categories (fst (detectDuplicatesAndSimilar (Some ps) cb clock) ! i))
         \<longleftrightarrow> 2 < length (take 5 (filter (qualifies (map withSignature ps) i {})
                                   [i - 25..<min (length ps) (i + 25)]))"
proof -
  let ?pws = "map withSignature ps"
  have "fst (findDuplicates ?pws (groupBySignature ?pws) i) = []"
    using assms by (simp add: detect_nth duplicateIds_categorizePhoto)
  then have "findDuplicates ?pws (groupBySignature ?pws) i = ([], {})"
    by (rule findDuplicates_none)
  then have sim: "findSimilar ?pws i (findDuplicates ?pws (groupBySignature ?pws) i)
             = map ((!) ?pws) (take 5 (filter (qualifies ?pws i {})
                                         [i - 25..<min (length ps) (i + 25)]))"
    by (simp add: findSimilar_def similarScan_eq)
  show "SIMILAR \<in> set (categories (fst (detectDuplicatesAndSimilar (Some ps) cb clock) ! i))
         \<longleftrightarrow> 0 < length (take 5 (filter (qualifies ?pws i {})
                                   [i - 25..<min (length ps) (i + 25)]))
             \<and> length (take 5 (filter (qualifies ?pws i {})
                                   [i - 25..<min (length ps) (i + 25)])) \<le> 2"
    using assms(1) by (simp only: detect_nth similar_labels sim length_map)
  show "BURST \<in> set (categories (fst (detectDuplicatesAndSimilar (Some ps) cb clock) ! i))
         \<longleftrightarrow> 2 < length (take 5 (filter (qualifies ?pws i {})
                                   [i - 25..<min (length ps) (i + 25)]))"
    using assms(1) by (simp only: detect_nth similar_labels sim length_map)
qed

text \<open>
  C6 at the input \<open>edgePair\<close>. Photo 0 has no duplicate, and exactly one neighbour within
  25 positions passes the test of dimensions, size and time: photo 25. The claim gives
  photo 0 the label \<open>similar\<close>. The loop of the source runs over the positions from
  \<open>index - 25\<close> up to but not including \<open>index + 25\<close>, so photo 0 never looks at photo 25 and
  gets neither label, while photo 25, which does look back at photo 0, is labelled
  \<open>similar\<close>.
\<close>

theorem similar_scan_misses_neighbour_at_plus_25:
  "duplicateCount (fst (detectDuplicatesAndSimilar (Some edgePair) False (clockAt 0)) ! 0) = 0
   \<and> qualifies (map withSignature edgePair) 0 {} 25
   \<and> SIMILAR \<notin> set (categories (fst (detectDuplicatesAndSimilar (Some edgePair) False (clockAt 0)) ! 0))
   \<and> BURST \<notin> set (categories (fst (detectDuplicatesAndSimilar (Some edgePair) False (clockAt 0)) ! 0))
   \<and> SIMILAR \<in> set (categories (fst (detectDuplicatesAndSimilar (Some edgePair) False (clockAt 0)) ! 25))"
  by (simp add: detect_nth length_edgePair similar_labels duplicateIds_categorizePhoto
        findDuplicates_none[OF edge_duplicates_0] findDuplicates_none[OF edge_duplicates_25]
        edge_duplicates_0 findSimilar_def edge_similar_0 edge_similar_25 edge_neighbour)

section \<open>Records with absent numeric fields\<close>








end
